theory Spec2Isabelle
  imports Main "HOL-Library.AList" "HOL-Library.Sublist" "HOL-Library.Word"
begin

section \<open>The persisted-state hook \<open>useStoredState\<close>\<close>

subsection \<open>Values, exceptions and the platform's JSON\<close>

text \<open>
  The hook is generic in the type \<open>T\<close> of the stored value, so a value is any JavaScript
  value the caller may pass: \<open>undefined\<close>, \<open>null\<close>, booleans, numbers (integers here; the
  model has no floating point), strings, arrays, objects, and \<open>BigInt\<close> as the standard
  example of a value that \<open>JSON.stringify\<close> refuses.
\<close>

datatype jsval =
    Undefined
  | Null
  | Bool bool
  | Num int
  | Str string
  | BigInt int
  | Arr "jsval list"
  | Obj "(string \<times> jsval) list"

datatype exn = TypeError | SyntaxError | QuotaExceededError

text \<open>
  \<open>JSON.stringify\<close> and \<open>JSON.parse\<close> belong to the platform, not to the repository. The
  hook is modelled over any pair of them: \<open>stringify\<close> returns the text, \<open>None\<close> where
  JavaScript returns \<open>undefined\<close>, or throws; \<open>parse\<close> returns the value or throws.
\<close>

record json_api =
  stringify :: "jsval \<Rightarrow> exn + string option"
  parse :: "string \<Rightarrow> exn + jsval"

text \<open>
  \<open>Object.is\<close>, by which React decides whether a state update changes the state.
  Primitives are compared by value. Arrays and objects are compared by reference; the
  model has no references and takes every array or object handed to the setter (the
  result of \<open>JSON.parse\<close>, a literal) as a reference of its own.
\<close>

fun Object_is :: "jsval \<Rightarrow> jsval \<Rightarrow> bool" where
  "Object_is (Arr xs) y = False"
| "Object_is (Obj ps) y = False"
| "Object_is x y = (x = y)"

subsection \<open>The storage backends\<close>

text \<open>
  A \<open>Storage\<close> object (\<open>localStorage\<close>, \<open>sessionStorage\<close>): string slots under string
  keys, and a quota on the characters held. \<open>getItem\<close> returns \<open>null\<close> (\<open>None\<close>) for an
  absent key; \<open>setItem\<close> throws \<open>QuotaExceededError\<close> and stores nothing when the new
  contents would exceed the quota; \<open>removeItem\<close> never throws.
\<close>

record storage =
  slots :: "(string \<times> string) list"
  quota :: nat

definition used :: "(string \<times> string) list \<Rightarrow> nat" where
  "used kvs = sum_list (map (\<lambda>(k, v). length k + length v) kvs)"

definition getItem :: "storage \<Rightarrow> string \<Rightarrow> string option" where
  "getItem st k = map_of (slots st) k"

definition setItem :: "storage \<Rightarrow> string \<Rightarrow> string \<Rightarrow> exn + storage" where
  "setItem st k v =
     (let kvs = AList.update k v (slots st)
      in if quota st < used kvs then Inl QuotaExceededError else Inr (st\<lparr>slots := kvs\<rparr>))"

definition removeItem :: "storage \<Rightarrow> string \<Rightarrow> storage" where
  "removeItem st k = st\<lparr>slots := AList.delete k (slots st)\<rparr>"

subsection \<open>The browsing context: storages, mounted hooks, observable trace\<close>

datatype storage_type = Local | Session

fun type_name :: "storage_type \<Rightarrow> string" where
  "type_name Local = ''local''"
| "type_name Session = ''session''"

text \<open>The parameter object \<open>{ key, value, type }\<close> of the hook.\<close>

record Params =
  key :: string
  dflt :: jsval
  stype :: storage_type

text \<open>
  One mounted instance of the hook. \<open>storedValue\<close> is the state as last rendered (what the
  caller reads), \<open>previousValueRef\<close> the ref of line 103, \<open>queued\<close> a state update that
  \<open>setStoredValue\<close> has scheduled and React has not rendered yet (the last one wins),
  \<open>subscribed\<close> whether the listeners of lines 123-134 are attached, \<open>effectPending\<close>
  whether the persistence effect of lines 137-150 has to run after the current render.
\<close>

record hook =
  params :: Params
  storedValue :: jsval
  previousValueRef :: jsval
  queued :: "jsval option"
  subscribed :: bool
  effectPending :: bool

text \<open>What an observer of the context sees happen, in order.\<close>

datatype event =
    SetItem storage_type string string
  | RemoveItem storage_type string
  | Dispatch string
  | ConsoleError string

record world =
  localStorage :: storage
  sessionStorage :: storage
  hooks :: "hook list"
  trace :: "event list"

definition emit :: "event \<Rightarrow> world \<Rightarrow> world" where
  "emit e w = w\<lparr>trace := trace w @ [e]\<rparr>"

text \<open>\<open>storageMap[type]\<close>, lines 95-102.\<close>

definition storage_of :: "world \<Rightarrow> storage_type \<Rightarrow> storage" where
  "storage_of w t = (case t of Local \<Rightarrow> localStorage w | Session \<Rightarrow> sessionStorage w)"

definition set_storage :: "storage_type \<Rightarrow> storage \<Rightarrow> world \<Rightarrow> world" where
  "set_storage t st w =
     (case t of Local \<Rightarrow> w\<lparr>localStorage := st\<rparr> | Session \<Rightarrow> w\<lparr>sessionStorage := st\<rparr>)"

subsection \<open>The hook's functions\<close>

text \<open>
  \<open>getStoredValue\<close>, lines 105-113. An absent slot and the empty string are falsy and give
  the default; a text that \<open>JSON.parse\<close> rejects is logged and gives the default.
\<close>

definition getStoredValue :: "json_api \<Rightarrow> Params \<Rightarrow> world \<Rightarrow> jsval \<times> world" where
  "getStoredValue J p w =
     (case getItem (storage_of w (stype p)) (key p) of
        None \<Rightarrow> (dflt p, w)
      | Some item \<Rightarrow>
          if item = [] then (dflt p, w)
          else (case parse J item of
                  Inr v \<Rightarrow> (v, w)
                | Inl e \<Rightarrow>
                    (dflt p,
                     emit (ConsoleError (''Unable to get '' @ key p @ '' from ''
                                           @ type_name (stype p) @ '' storage'')) w)))"

text \<open>The state setter of \<open>useState\<close>: the update is queued for the next render.\<close>

definition setStoredValue :: "nat \<Rightarrow> jsval \<Rightarrow> world \<Rightarrow> world" where
  "setStoredValue i v w = w\<lparr>hooks := (hooks w)[i := (hooks w ! i)\<lparr>queued := Some v\<rparr>]\<rparr>"

text \<open>\<open>handleCustom\<close>, line 127, and \<open>handleStorage\<close>, lines 124-126, of instance \<open>i\<close>.\<close>

definition handleCustom :: "json_api \<Rightarrow> nat \<Rightarrow> world \<Rightarrow> world" where
  "handleCustom J i w =
     (let (v, w') = getStoredValue J (params (hooks w ! i)) w in setStoredValue i v w')"

definition handleStorage :: "json_api \<Rightarrow> nat \<Rightarrow> string option \<Rightarrow> world \<Rightarrow> world" where
  "handleStorage J i event_key w =
     (if event_key = Some (key (params (hooks w ! i))) then handleCustom J i w else w)"

definition changed_event :: "string \<Rightarrow> string" where
  "changed_event k = k @ ''-changed''"

text \<open>
  \<open>window.dispatchEvent(new Event(name))\<close>: the listeners registered for \<open>name\<close> run one
  after the other, synchronously, before the call returns. The listeners are those of the
  subscribed instances whose \<open>${key}-changed\<close> is \<open>name\<close>.
\<close>

fun notify :: "json_api \<Rightarrow> string \<Rightarrow> nat list \<Rightarrow> world \<Rightarrow> world" where
  "notify J name [] w = w"
| "notify J name (i # is) w =
     notify J name is
       (if subscribed (hooks w ! i) \<and> changed_event (key (params (hooks w ! i))) = name
        then handleCustom J i w else w)"

definition dispatchEvent :: "json_api \<Rightarrow> string \<Rightarrow> world \<Rightarrow> world" where
  "dispatchEvent J name w = notify J name [0..<length (hooks w)] (emit (Dispatch name) w)"

text \<open>
  A \<open>storage\<close> event, which the browser delivers when another browsing context has changed
  a slot; \<open>event_key\<close> is \<open>event.key\<close> (\<open>None\<close> for \<open>null\<close>, after \<open>clear()\<close>).
\<close>

fun storageEvent :: "json_api \<Rightarrow> string option \<Rightarrow> nat list \<Rightarrow> world \<Rightarrow> world" where
  "storageEvent J event_key [] w = w"
| "storageEvent J event_key (i # is) w =
     storageEvent J event_key is
       (if subscribed (hooks w ! i) then handleStorage J i event_key w else w)"

text \<open>\<open>removeStoredValue\<close>, lines 117-120, of instance \<open>i\<close>.\<close>

definition removeStoredValue :: "json_api \<Rightarrow> nat \<Rightarrow> world \<Rightarrow> world" where
  "removeStoredValue J i w =
     (let p = params (hooks w ! i);
          w1 = emit (RemoveItem (stype p) (key p))
                 (set_storage (stype p) (removeItem (storage_of w (stype p)) (key p)) w)
      in dispatchEvent J (changed_event (key p)) w1)"

text \<open>
  Line 138. Both calls of \<open>JSON.stringify\<close> stand outside the \<open>try\<close>: what they throw
  leaves the effect.
\<close>

definition hasValueChanged :: "json_api \<Rightarrow> hook \<Rightarrow> exn + bool" where
  "hasValueChanged J h =
     (case stringify J (storedValue h) of
        Inl e \<Rightarrow> Inl e
      | Inr s \<Rightarrow>
          (case stringify J (previousValueRef h) of
             Inl e \<Rightarrow> Inl e
           | Inr s' \<Rightarrow> Inr (s \<noteq> s')))"

text \<open>
  Lines 142-143, the backend write step: \<open>removeItem\<close> for \<open>null\<close> and \<open>undefined\<close>,
  \<open>setItem\<close> of the serialized value otherwise (\<open>setItem\<close> turns an \<open>undefined\<close> argument
  into the text \<open>undefined\<close>).
\<close>

definition writeStep :: "json_api \<Rightarrow> Params \<Rightarrow> jsval \<Rightarrow> world \<Rightarrow> exn + world" where
  "writeStep J p v w =
     (if v = Null \<or> v = Undefined then
        Inr (emit (RemoveItem (stype p) (key p))
               (set_storage (stype p) (removeItem (storage_of w (stype p)) (key p)) w))
      else
        (case stringify J v of
           Inl e \<Rightarrow> Inl e
         | Inr s \<Rightarrow>
             (let text = (case s of None \<Rightarrow> ''undefined'' | Some t \<Rightarrow> t)
              in case setItem (storage_of w (stype p)) (key p) text of
                   Inl e \<Rightarrow> Inl e
                 | Inr st \<Rightarrow> Inr (emit (SetItem (stype p) (key p) text) (set_storage (stype p) st w)))))"

definition set_previous :: "nat \<Rightarrow> jsval \<Rightarrow> world \<Rightarrow> world" where
  "set_previous i v w = w\<lparr>hooks := (hooks w)[i := (hooks w ! i)\<lparr>previousValueRef := v\<rparr>]\<rparr>"

text \<open>
  The persistence effect, lines 137-150, of instance \<open>i\<close>. \<open>Inl\<close> is an exception that
  leaves the effect. Inside the \<open>try\<close>, the write step comes first; the dispatch and the
  assignment to the ref follow it, so an exception of the write step skips both and is
  logged by the \<open>catch\<close>.
\<close>

definition persistEffect :: "json_api \<Rightarrow> nat \<Rightarrow> world \<Rightarrow> exn + world" where
  "persistEffect J i w =
     (let h = hooks w ! i; p = params h
      in case hasValueChanged J h of
           Inl e \<Rightarrow> Inl e
         | Inr False \<Rightarrow> Inr w
         | Inr True \<Rightarrow>
             (case writeStep J p (storedValue h) w of
                Inl e \<Rightarrow>
                  Inr (emit (ConsoleError (''Unable to set '' @ key p @ '' to ''
                                             @ type_name (stype p) @ '' storage'')) w)
              | Inr w1 \<Rightarrow>
                  Inr (set_previous i (storedValue h)
                         (dispatchEvent J (changed_event (key p)) w1))))"

subsection \<open>React: renders and effects\<close>

text \<open>
  Rendering an instance applies its queued update. React skips the update when the new
  state is \<open>Object.is\<close> the rendered one; otherwise the instance renders with the new
  \<open>storedValue\<close>, and the persistence effect, which lists \<open>storedValue\<close> among its
  dependencies, is scheduled.
\<close>

definition render_hook :: "hook \<Rightarrow> hook" where
  "render_hook h =
     (case queued h of
        None \<Rightarrow> h
      | Some v \<Rightarrow>
          if Object_is v (storedValue h) then h\<lparr>queued := None\<rparr>
          else h\<lparr>storedValue := v, queued := None, effectPending := True\<rparr>)"

definition render :: "world \<Rightarrow> world" where
  "render w = w\<lparr>hooks := map render_hook (hooks w)\<rparr>"

text \<open>
  The effects of instance \<open>i\<close> after a render, in the order of the source: the
  subscription effect (lines 123-134; its dependencies \<open>key\<close> and \<open>type\<close> never change, so
  it runs at the mount only), then the persistence effect.
\<close>

definition runEffects :: "json_api \<Rightarrow> nat \<Rightarrow> world \<Rightarrow> exn + world" where
  "runEffects J i w =
     persistEffect J i
       (w\<lparr>hooks := (hooks w)[i := (hooks w ! i)\<lparr>subscribed := True, effectPending := False\<rparr>]\<rparr>)"

text \<open>
  The commit: the scheduled effects run instance after instance. Updates that the
  listeners queue meanwhile wait for the next render. An exception that leaves an effect
  ends the commit.
\<close>

fun commit :: "json_api \<Rightarrow> nat list \<Rightarrow> world \<Rightarrow> exn + world" where
  "commit J [] w = Inr w"
| "commit J (i # is) w =
     (if effectPending (hooks w ! i)
      then (case runEffects J i w of Inl e \<Rightarrow> Inl e | Inr w' \<Rightarrow> commit J is w')
      else commit J is w)"

definition pass :: "json_api \<Rightarrow> world \<Rightarrow> exn + world" where
  "pass J w = commit J [0..<length (hooks w)] (render w)"

text \<open>An instance is at rest when it has nothing queued and no effect to run.\<close>

definition at_rest :: "hook \<Rightarrow> bool" where
  "at_rest h = (queued h = None \<and> \<not> effectPending h)"

definition quiescent :: "world \<Rightarrow> bool" where
  "quiescent w = list_all at_rest (hooks w)"

text \<open>
  React renders and commits until nothing is queued or scheduled. The source bounds
  the number of rounds nowhere, so the model counts them: \<open>OutOfFuel\<close> says that the
  given number of rounds did not suffice.
\<close>

datatype 'a outcome = Done 'a | Thrown exn | OutOfFuel

fun settle :: "nat \<Rightarrow> json_api \<Rightarrow> world \<Rightarrow> world outcome" where
  "settle n J w =
     (if quiescent w then Done w
      else (case n of
              0 \<Rightarrow> OutOfFuel
            | Suc m \<Rightarrow> (case pass J w of Inl e \<Rightarrow> Thrown e | Inr w' \<Rightarrow> settle m J w')))"

text \<open>
  The context \<open>n\<close> rounds later, or at rest if it comes to rest earlier: what an observer
  finds at any time after an operation.
\<close>

fun rounds :: "nat \<Rightarrow> json_api \<Rightarrow> world \<Rightarrow> exn + world" where
  "rounds 0 J w = Inr w"
| "rounds (Suc n) J w =
     (if quiescent w then Inr w
      else (case pass J w of Inl e \<Rightarrow> Inl e | Inr w' \<Rightarrow> rounds n J w'))"

subsection \<open>The accessor: mount, read, write, remove\<close>

text \<open>
  Mounting a component that calls \<open>useStoredState(p)\<close>: \<open>useState(getStoredValue)\<close>
  (line 115) initialises the state, \<open>useRef(null)\<close> (line 103) the ref; the effects run
  at the first commit. The new instance is the last of \<open>hooks\<close>.
\<close>

definition mount :: "json_api \<Rightarrow> Params \<Rightarrow> world \<Rightarrow> world" where
  "mount J p w =
     (let (v, w') = getStoredValue J p w
      in w'\<lparr>hooks := hooks w' @
            [\<lparr>params = p, storedValue = v, previousValueRef = Null, queued = None,
              subscribed = False, effectPending = True\<rparr>]\<rparr>)"

text \<open>The triple the hook returns (line 152), as the accessor of the specification:
  \<open>read\<close>, \<open>write\<close> (the setter \<open>setStoredValue\<close>) and \<open>remove\<close> of instance \<open>i\<close>.\<close>

definition acc_read :: "nat \<Rightarrow> world \<Rightarrow> jsval" where
  "acc_read i w = storedValue (hooks w ! i)"

definition acc_write :: "nat \<Rightarrow> jsval \<Rightarrow> world \<Rightarrow> world" where
  "acc_write i v w = setStoredValue i v w"

definition acc_remove :: "json_api \<Rightarrow> nat \<Rightarrow> world \<Rightarrow> world" where
  "acc_remove J i w = removeStoredValue J i w"

definition slot :: "world \<Rightarrow> storage_type \<Rightarrow> string \<Rightarrow> string option" where
  "slot w t k = getItem (storage_of w t) k"

definition empty_world :: "nat \<Rightarrow> world" where
  "empty_world q =
     \<lparr>localStorage = \<lparr>slots = [], quota = q\<rparr>, sessionStorage = \<lparr>slots = [], quota = q\<rparr>,
      hooks = [], trace = []\<rparr>"

subsection \<open>A JSON for the scalar values\<close>

text \<open>
  For evaluating the model on concrete inputs: \<open>scalar_JSON\<close> is \<open>JSON.stringify\<close> and
  \<open>JSON.parse\<close> on \<open>undefined\<close>, \<open>null\<close>, the booleans, the integers and \<open>BigInt\<close>, and
  on the texts of these values. It is used on no other value and no other text.
\<close>

definition digit_char :: "nat \<Rightarrow> char" where
  "digit_char d = ''0123456789'' ! d"

fun decimal :: "nat \<Rightarrow> string" where
  "decimal n = (if n < 10 then [digit_char n] else decimal (n div 10) @ [digit_char (n mod 10)])"

declare decimal.simps [simp del]

definition show_int :: "int \<Rightarrow> string" where
  "show_int i = (if i < 0 then CHR ''-'' # decimal (nat (- i)) else decimal (nat i))"

definition digit_value :: "char \<Rightarrow> nat option" where
  "digit_value c = map_of (zip ''0123456789'' [0..<10]) c"

fun read_digits :: "nat \<Rightarrow> string \<Rightarrow> nat option" where
  "read_digits acc [] = Some acc"
| "read_digits acc (c # cs) =
     (case digit_value c of None \<Rightarrow> None | Some d \<Rightarrow> read_digits (10 * acc + d) cs)"

text \<open>The integers of the JSON grammar: no sign but \<open>-\<close>, no leading zero.\<close>

definition read_nat :: "string \<Rightarrow> nat option" where
  "read_nat s =
     (if s = [] \<or> (hd s = CHR ''0'' \<and> tl s \<noteq> []) then None else read_digits 0 s)"

definition read_int :: "string \<Rightarrow> int option" where
  "read_int s =
     (case s of
        [] \<Rightarrow> None
      | c # cs \<Rightarrow>
          if c = CHR ''-'' then map_option (\<lambda>n. - int n) (read_nat cs)
          else map_option int (read_nat s))"

fun scalar_stringify :: "jsval \<Rightarrow> exn + string option" where
  "scalar_stringify Undefined = Inr None"
| "scalar_stringify Null = Inr (Some ''null'')"
| "scalar_stringify (Bool b) = Inr (Some (if b then ''true'' else ''false''))"
| "scalar_stringify (Num i) = Inr (Some (show_int i))"
| "scalar_stringify (BigInt i) = Inl TypeError"
| "scalar_stringify v = Inl TypeError"

definition scalar_parse :: "string \<Rightarrow> exn + jsval" where
  "scalar_parse s =
     (if s = ''null'' then Inr Null
      else if s = ''true'' then Inr (Bool True)
      else if s = ''false'' then Inr (Bool False)
      else (case read_int s of Some i \<Rightarrow> Inr (Num i) | None \<Rightarrow> Inl SyntaxError))"

definition scalar_JSON :: json_api where
  "scalar_JSON = \<lparr>stringify = scalar_stringify, parse = scalar_parse\<rparr>"

section \<open>The installer\<close>

subsection \<open>Source tree and destination file system\<close>

text \<open>
  The directory bundled with the package is a tree of files and directories. The
  installer only reads it, and the destination lies outside it (under the consumer's
  working directory), so the source is a value and the destination a file system of its
  own: a map from paths (lists of names below the root; the root is a directory) to what
  is there.
\<close>

type_synonym bytes = "8 word list"


datatype entry = FileE bytes | DirE

type_synonym path = "string list"

type_synonym filesystem = "path \<Rightarrow> entry option"

datatype errno = ENOENT | ENOTDIR | EISDIR | EEXIST






subsection \<open>\<open>copyDirectory\<close> of the install script (lines 9-26)\<close>





definition exit_status :: "errno + filesystem \<Rightarrow> nat" where
  "exit_status r = (case r of Inr f \<Rightarrow> 0 | Inl e \<Rightarrow> 1)"

subsection \<open>\<open>copyDir\<close> of the post-install script\<close>



subsection \<open>The files of a source tree\<close>



section \<open>Notions used by the properties\<close>

text \<open>
  A value is JSON-serializable, relative to the platform's JSON, when \<open>stringify\<close> gives
  it a text, the text is not empty, \<open>parse\<close> accepts the text, and the value parsed has
  the same text again.
\<close>

definition round_trips :: "json_api \<Rightarrow> jsval \<Rightarrow> bool" where
  "round_trips J v =
     (case stringify J v of
        Inr (Some s) \<Rightarrow>
          s \<noteq> [] \<and> (case parse J s of Inr v' \<Rightarrow> stringify J v' = Inr (Some s) | Inl e \<Rightarrow> False)
      | _ \<Rightarrow> False)"

text \<open>
  A mounted instance at rest: its listeners are attached, nothing is queued, no effect
  is scheduled; \<open>m\<close> is the mirror and \<open>c\<close> the value last committed to the ref.
\<close>

definition idle :: "Params \<Rightarrow> jsval \<Rightarrow> jsval \<Rightarrow> hook" where
  "idle p m c =
     \<lparr>params = p, storedValue = m, previousValueRef = c, queued = None,
      subscribed = True, effectPending = False\<rparr>"

subsection \<open>The example of the hook's documentation: a counter\<close>

definition counter_params :: Params where
  "counter_params = \<lparr>key = ''counter'', dflt = Num 0, stype = Local\<rparr>"

text \<open>The counter mounted on empty storages, after its first effects.\<close>

definition w_mounted :: world where
  "w_mounted =
     \<lparr>localStorage = \<lparr>slots = [(''counter'', ''0'')], quota = 100\<rparr>,
      sessionStorage = \<lparr>slots = [], quota = 100\<rparr>,
      hooks = [idle counter_params (Num 0) (Num 0)],
      trace = [SetItem Local ''counter'' ''0'', Dispatch ''counter-changed'']\<rparr>"

text \<open>The same after \<open>setCount(5)\<close>.\<close>

definition w_five :: world where
  "w_five =
     \<lparr>localStorage = \<lparr>slots = [(''counter'', ''5'')], quota = 100\<rparr>,
      sessionStorage = \<lparr>slots = [], quota = 100\<rparr>,
      hooks = [idle counter_params (Num 5) (Num 5)],
      trace = [SetItem Local ''counter'' ''0'', Dispatch ''counter-changed'',
               SetItem Local ''counter'' ''5'', Dispatch ''counter-changed'']\<rparr>"

text \<open>Two components that use the counter, both showing 5.\<close>

definition w_pair :: world where
  "w_pair =
     \<lparr>localStorage = \<lparr>slots = [(''counter'', ''5'')], quota = 100\<rparr>,
      sessionStorage = \<lparr>slots = [], quota = 100\<rparr>,
      hooks = [idle counter_params (Num 5) (Num 5), idle counter_params (Num 5) (Num 5)],
      trace = [SetItem Local ''counter'' ''0'', Dispatch ''counter-changed'',
               SetItem Local ''counter'' ''5'', Dispatch ''counter-changed'',
               SetItem Local ''counter'' ''5'', Dispatch ''counter-changed'']\<rparr>"

text \<open>A second accessor, whose default is \<open>null\<close>.\<close>

definition null_params :: Params where
  "null_params = \<lparr>key = ''note'', dflt = Null, stype = Session\<rparr>"

text \<open>The counter and the second accessor, mounted in one context.\<close>

definition w_with_note :: world where
  "w_with_note =
     \<lparr>localStorage = \<lparr>slots = [(''counter'', ''0'')], quota = 100\<rparr>,
      sessionStorage = \<lparr>slots = [], quota = 100\<rparr>,
      hooks = [idle counter_params (Num 0) (Num 0), idle null_params Null Null],
      trace = [SetItem Local ''counter'' ''0'', Dispatch ''counter-changed'']\<rparr>"

text \<open>The backend operations and the notifications in a stretch of the trace.\<close>

fun is_backend_write :: "event \<Rightarrow> bool" where
  "is_backend_write (SetItem t k s) = True"
| "is_backend_write (RemoveItem t k) = True"
| "is_backend_write e = False"

fun is_notification :: "event \<Rightarrow> bool" where
  "is_notification (Dispatch n) = True"
| "is_notification e = False"

definition backend_writes :: "event list \<Rightarrow> nat" where
  "backend_writes tr = length (filter is_backend_write tr)"

definition notifications :: "event list \<Rightarrow> nat" where
  "notifications tr = length (filter is_notification tr)"

subsection \<open>A small package for the installer\<close>




text \<open>
  The surroundings of instance \<open>i\<close> in a context: every other instance is at rest
  (\<open>resting_but\<close>), and \<open>listeners w name\<close> are the instances, in the order of their
  mount, whose listener \<open>window.dispatchEvent\<close> calls for the event \<open>name\<close>.
\<close>

definition resting_but :: "nat \<Rightarrow> world \<Rightarrow> bool" where
  "resting_but i w = list_all (\<lambda>j. j = i \<or> at_rest (hooks w ! j)) [0..<length (hooks w)]"

definition listens :: "world \<Rightarrow> string \<Rightarrow> nat \<Rightarrow> bool" where
  "listens w name j =
     (subscribed (hooks w ! j) \<and> changed_event (key (params (hooks w ! j))) = name)"

definition listeners :: "world \<Rightarrow> string \<Rightarrow> nat list" where
  "listeners w name = filter (listens w name) [0..<length (hooks w)]"

text \<open>
  The context after a round in which instance \<open>i\<close> has rendered \<open>v\<close>, stored its text
  \<open>s\<close> and heard its own notification: its listener has queued \<open>v'\<close>, the value parsed
  from the slot.
\<close>

definition persisted :: "nat \<Rightarrow> Params \<Rightarrow> jsval \<Rightarrow> jsval \<Rightarrow> string \<Rightarrow> storage \<Rightarrow> world \<Rightarrow> world" where
  "persisted i p v v' s st w =
     (emit (Dispatch (changed_event (key p)))
        (emit (SetItem (stype p) (key p) s) (set_storage (stype p) st w)))
     \<lparr>hooks := (hooks w)[i := idle p v v\<lparr>queued := Some v'\<rparr>]\<rparr>"


section \<open>Lemmas about the hook\<close>

subsection \<open>Serializable values\<close>

lemma round_tripsD:
  assumes "round_trips J v"
  shows "\<exists>s v'. stringify J v = Inr (Some s) \<and> s \<noteq> [] \<and> parse J s = Inr v'
           \<and> stringify J v' = Inr (Some s)"
proof (cases "stringify J v")
  case (Inl e)
  with assms show ?thesis by (simp add: round_trips_def)
next
  case (Inr so)
  show ?thesis
  proof (cases so)
    case None
    with Inr assms show ?thesis by (simp add: round_trips_def)
  next
    case (Some s)
    with Inr assms show ?thesis by (cases "parse J s") (simp_all add: round_trips_def)
  qed
qed

lemma Object_is_eq: "Object_is x y \<Longrightarrow> x = y"
  by (cases x) simp_all

subsection \<open>What each operation leaves alone\<close>

lemma emit_proj [simp]:
  "hooks (emit e w) = hooks w" "trace (emit e w) = trace w @ [e]"
  "storage_of (emit e w) t = storage_of w t"
  by (simp_all add: emit_def storage_of_def split: storage_type.split)

lemma set_storage_proj [simp]:
  "hooks (set_storage t st w) = hooks w" "trace (set_storage t st w) = trace w"
  "storage_of (set_storage t st w) t' = (if t' = t then st else storage_of w t')"
  by (cases t; cases t'; simp add: set_storage_def storage_of_def)+

lemma hooks_update_proj [simp]: "storage_of (w\<lparr>hooks := hs\<rparr>) t = storage_of w t"
  by (simp add: storage_of_def split: storage_type.split)

lemma setStoredValue_proj [simp]:
  "hooks (setStoredValue i v w) = (hooks w)[i := (hooks w ! i)\<lparr>queued := Some v\<rparr>]"
  "trace (setStoredValue i v w) = trace w"
  "storage_of (setStoredValue i v w) t = storage_of w t"
  by (simp_all add: setStoredValue_def)

lemma set_previous_proj [simp]:
  "hooks (set_previous i v w) = (hooks w)[i := (hooks w ! i)\<lparr>previousValueRef := v\<rparr>]"
  "trace (set_previous i v w) = trace w"
  "storage_of (set_previous i v w) t = storage_of w t"
  by (simp_all add: set_previous_def)

lemma getItem_setItem: "setItem st k s = Inr st' \<Longrightarrow> getItem st' k = Some s"
  by (auto simp: setItem_def getItem_def Let_def update_conv' split: if_splits)

lemma getItem_removeItem [simp]: "getItem (removeItem st k) k = None"
  by (simp add: removeItem_def getItem_def delete_conv')

subsection \<open>The listeners\<close>

lemma getStoredValue_proj [simp]:
  "hooks (snd (getStoredValue J p w)) = hooks w"
  "storage_of (snd (getStoredValue J p w)) t = storage_of w t"
  by (simp_all add: getStoredValue_def split: option.split sum.split)

lemma getStoredValue_trace: "\<exists>tr. trace (snd (getStoredValue J p w)) = trace w @ tr"
  by (simp add: getStoredValue_def split: option.split sum.split)

lemma getStoredValue_absent:
  "getItem (storage_of w (stype p)) (key p) = None \<Longrightarrow> getStoredValue J p w = (dflt p, w)"
  by (simp add: getStoredValue_def)

lemma getStoredValue_parsed:
  "getItem (storage_of w (stype p)) (key p) = Some s \<Longrightarrow> s \<noteq> [] \<Longrightarrow> parse J s = Inr v
   \<Longrightarrow> getStoredValue J p w = (v, w)"
  by (simp add: getStoredValue_def)

lemma handleCustom_eq:
  "handleCustom J i w =
     setStoredValue i (fst (getStoredValue J (params (hooks w ! i)) w))
       (snd (getStoredValue J (params (hooks w ! i)) w))"
  by (simp add: handleCustom_def split: prod.split)

lemma handleCustom_proj [simp]:
  "length (hooks (handleCustom J i w)) = length (hooks w)"
  "storage_of (handleCustom J i w) t = storage_of w t"
  by (simp_all add: handleCustom_eq)

lemma handleCustom_trace: "\<exists>tr. trace (handleCustom J i w) = trace w @ tr"
  using getStoredValue_trace by (simp add: handleCustom_eq)

lemma handleCustom_absent:
  "getItem (storage_of w (stype (params (hooks w ! i)))) (key (params (hooks w ! i))) = None
   \<Longrightarrow> handleCustom J i w = setStoredValue i (dflt (params (hooks w ! i))) w"
  by (simp add: handleCustom_def getStoredValue_absent)

lemma handleCustom_parsed:
  "getItem (storage_of w (stype (params (hooks w ! i)))) (key (params (hooks w ! i))) = Some s
   \<Longrightarrow> s \<noteq> [] \<Longrightarrow> parse J s = Inr v
   \<Longrightarrow> handleCustom J i w = setStoredValue i v w"
  by (simp add: handleCustom_def getStoredValue_parsed)

lemma notify_proj [simp]:
  "length (hooks (notify J name is w)) = length (hooks w)"
  "storage_of (notify J name is w) t = storage_of w t"
  by (induction "is" arbitrary: w) simp_all

lemma notify_trace: "\<exists>tr. trace (notify J name is w) = trace w @ tr"
proof (induction "is" arbitrary: w)
  case Nil
  then show ?case by simp
next
  case (Cons i "is")
  let ?w = "if subscribed (hooks w ! i) \<and> changed_event (key (params (hooks w ! i))) = name
            then handleCustom J i w else w"
  have "\<exists>tr1. trace ?w = trace w @ tr1" using handleCustom_trace[of J i w] by simp
  then obtain tr1 where 1: "trace ?w = trace w @ tr1" by blast
  obtain tr2 where 2: "trace (notify J name is ?w) = trace ?w @ tr2" using Cons.IH by blast
  show ?case using 1 2 by simp
qed

lemma dispatchEvent_proj [simp]:
  "length (hooks (dispatchEvent J name w)) = length (hooks w)"
  "storage_of (dispatchEvent J name w) t = storage_of w t"
  by (simp_all add: dispatchEvent_def)

lemma dispatchEvent_trace:
  "\<exists>tr. trace (dispatchEvent J name w) = trace w @ Dispatch name # tr"
  using notify_trace[of J name "[0..<length (hooks w)]" "emit (Dispatch name) w"]
  by (auto simp: dispatchEvent_def)

text \<open>
  The listeners only log: a notification adds its own event to the trace, and after it
  neither a backend operation nor another notification.
\<close>

lemma getStoredValue_logs:
  "\<exists>tr. trace (snd (getStoredValue J p w)) = trace w @ tr
        \<and> backend_writes tr = 0 \<and> notifications tr = 0"
  by (simp add: getStoredValue_def backend_writes_def notifications_def
      split: option.split sum.split)

lemma handleCustom_logs:
  "\<exists>tr. trace (handleCustom J i w) = trace w @ tr
        \<and> backend_writes tr = 0 \<and> notifications tr = 0"
  using getStoredValue_logs by (simp add: handleCustom_eq)

lemma notify_logs:
  "\<exists>tr. trace (notify J name is w) = trace w @ tr
        \<and> backend_writes tr = 0 \<and> notifications tr = 0"
proof (induction "is" arbitrary: w)
  case Nil
  then show ?case by (simp add: backend_writes_def notifications_def)
next
  case (Cons i "is")
  let ?w = "if subscribed (hooks w ! i) \<and> changed_event (key (params (hooks w ! i))) = name
            then handleCustom J i w else w"
  have "\<exists>tr1. trace ?w = trace w @ tr1 \<and> backend_writes tr1 = 0 \<and> notifications tr1 = 0"
    using handleCustom_logs[of J i w] by (simp add: backend_writes_def notifications_def)
  then obtain tr1 where 1: "trace ?w = trace w @ tr1"
    "backend_writes tr1 = 0" "notifications tr1 = 0" by blast
  obtain tr2 where 2: "trace (notify J name is ?w) = trace ?w @ tr2"
    "backend_writes tr2 = 0" "notifications tr2 = 0" using Cons.IH by blast
  have "trace (notify J name (i # is) w) = trace w @ (tr1 @ tr2)" using 1 2 by simp
  moreover have "backend_writes (tr1 @ tr2) = 0" "notifications (tr1 @ tr2) = 0"
    using 1 2 by (simp_all add: backend_writes_def notifications_def)
  ultimately show ?case by blast
qed

lemma dispatchEvent_logs:
  "\<exists>tr. trace (dispatchEvent J name w) = trace w @ Dispatch name # tr
        \<and> backend_writes tr = 0 \<and> notifications tr = 0"
  using notify_logs[of J name "[0..<length (hooks w)]" "emit (Dispatch name) w"]
  by (auto simp: dispatchEvent_def)

subsection \<open>The effect, case by case\<close>

lemma persist_noop:
  "hasValueChanged J (hooks w ! i) = Inr False \<Longrightarrow> persistEffect J i w = Inr w"
  by (simp add: persistEffect_def)

lemma persist_logged:
  "hasValueChanged J (hooks w ! i) = Inr True
   \<Longrightarrow> writeStep J (params (hooks w ! i)) (storedValue (hooks w ! i)) w = Inl e
   \<Longrightarrow> persistEffect J i w
       = Inr (emit (ConsoleError (''Unable to set '' @ key (params (hooks w ! i)) @ '' to ''
                        @ type_name (stype (params (hooks w ! i))) @ '' storage'')) w)"
  by (simp add: persistEffect_def Let_def)

lemma persist_written:
  "hasValueChanged J (hooks w ! i) = Inr True
   \<Longrightarrow> writeStep J (params (hooks w ! i)) (storedValue (hooks w ! i)) w = Inr w1
   \<Longrightarrow> persistEffect J i w
       = Inr (set_previous i (storedValue (hooks w ! i))
               (dispatchEvent J (changed_event (key (params (hooks w ! i)))) w1))"
  by (simp add: persistEffect_def Let_def)

lemma writeStep_set:
  "v \<noteq> Null \<Longrightarrow> v \<noteq> Undefined \<Longrightarrow> stringify J v = Inr (Some s)
   \<Longrightarrow> setItem (storage_of w (stype p)) (key p) s = Inr st
   \<Longrightarrow> writeStep J p v w = Inr (emit (SetItem (stype p) (key p) s) (set_storage (stype p) st w))"
  by (simp add: writeStep_def)

lemma writeStep_quota:
  "v \<noteq> Null \<Longrightarrow> v \<noteq> Undefined \<Longrightarrow> stringify J v = Inr (Some s)
   \<Longrightarrow> setItem (storage_of w (stype p)) (key p) s = Inl e
   \<Longrightarrow> writeStep J p v w = Inl e"
  by (simp add: writeStep_def)

lemma writeStep_remove:
  "v = Null \<or> v = Undefined
   \<Longrightarrow> writeStep J p v w
       = Inr (emit (RemoveItem (stype p) (key p))
               (set_storage (stype p) (removeItem (storage_of w (stype p)) (key p)) w))"
  by (auto simp add: writeStep_def)

lemma writeStep_proj:
  "writeStep J p v w = Inr w1 \<Longrightarrow> hooks w1 = hooks w"
  by (auto simp: writeStep_def Let_def split: if_splits sum.splits)

lemma writeStep_trace:
  "writeStep J p v w = Inr w1 \<Longrightarrow> \<exists>e. trace w1 = trace w @ [e]"
  by (auto simp: writeStep_def Let_def split: if_splits sum.splits)

lemma writeStep_event:
  "writeStep J p v w = Inr w1 \<Longrightarrow> \<exists>e. trace w1 = trace w @ [e] \<and> is_backend_write e"
  by (auto simp: writeStep_def Let_def split: if_splits sum.splits)

subsection \<open>Rounds\<close>

lemma settle_Suc:
  "\<not> quiescent w \<Longrightarrow> pass J w = Inr w' \<Longrightarrow> settle (Suc n) J w = settle n J w'"
  by simp

lemma settle_done: "quiescent w \<Longrightarrow> settle n J w = Done w"
  by simp

lemma settle_thrown: "\<not> quiescent w \<Longrightarrow> pass J w = Inl e \<Longrightarrow> settle (Suc n) J w = Thrown e"
  by simp

declare settle.simps [simp del]

lemma rounds_settled:
  "settle k J w = Done w' \<Longrightarrow> k \<le> n \<Longrightarrow> rounds n J w = Inr w'"
proof (induction n arbitrary: k w)
  case 0
  then show ?case by (simp add: settle.simps[of 0] split: if_splits)
next
  case (Suc n)
  show ?case
  proof (cases "quiescent w")
    case True
    then show ?thesis using Suc.prems(1) by (simp add: settle_done)
  next
    case False
    then obtain k' where k: "k = Suc k'"
      using Suc.prems(1) by (cases k) (simp_all add: settle.simps[of 0])
    from Suc.prems(1) False k obtain w1 where p: "pass J w = Inr w1"
      and s: "settle k' J w1 = Done w'"
      by (cases "pass J w") (simp_all add: settle_thrown settle_Suc)
    have "rounds n J w1 = Inr w'" using Suc.IH[OF s] Suc.prems(2) k by simp
    then show ?thesis using False p by simp
  qed
qed

lemma settle_one_pass:
  assumes "\<not> quiescent w" and "settle (Suc 0) J w = Done w'"
  shows "pass J w = Inr w' \<and> settle (Suc 0) J w' = Done w'"
proof (cases "pass J w")
  case (Inl e)
  then show ?thesis using assms by (simp add: settle_thrown)
next
  case (Inr w1)
  then have "settle 0 J w1 = Done w'" using assms by (simp add: settle_Suc)
  then have q: "quiescent w1" "w1 = w'" by (simp_all add: settle.simps[of 0] split: if_splits)
  then have "settle (Suc 0) J w' = Done w'" by (simp add: settle_done)
  then show ?thesis using Inr q by simp
qed

lemma rounds_cases:
  assumes "P w0" and "\<not> quiescent w0" and "pass J w0 = Inr w1" and "P w1"
    and "settle (Suc 0) J w1 = Done w2" and "P w2"
  shows "\<exists>w'. rounds n J w0 = Inr w' \<and> P w'"
proof (cases n)
  case 0
  then show ?thesis using assms(1) by simp
next
  case (Suc k)
  show ?thesis
  proof (cases k)
    case 0
    then show ?thesis using Suc assms(2,3,4) by simp
  next
    case (Suc j)
    have "rounds (Suc j) J w1 = Inr w2" using assms(5) by (rule rounds_settled) simp
    then show ?thesis using \<open>n = Suc k\<close> Suc assms(2,3,6) by simp
  qed
qed

subsection \<open>Who is notified\<close>

lemma handleCustom_nth [simp]:
  "params (hooks (handleCustom J i w) ! j) = params (hooks w ! j)"
  "subscribed (hooks (handleCustom J i w) ! j) = subscribed (hooks w ! j)"
  "effectPending (hooks (handleCustom J i w) ! j) = effectPending (hooks w ! j)"
  "storedValue (hooks (handleCustom J i w) ! j) = storedValue (hooks w ! j)"
  "previousValueRef (hooks (handleCustom J i w) ! j) = previousValueRef (hooks w ! j)"
  by (cases "j = i"; cases "i < length (hooks w)"; simp add: handleCustom_eq list_update_beyond)+

lemma listens_handleCustom [simp]: "listens (handleCustom J i w) name = listens w name"
  by (rule ext) (simp add: listens_def)

lemma notify_listeners:
  "notify J name js w = fold (handleCustom J) (filter (listens w name) js) w"
proof (induction js arbitrary: w)
  case Nil
  then show ?case by simp
next
  case (Cons j js)
  show ?case
  proof (cases "listens w name j")
    case True
    then have "notify J name (j # js) w = notify J name js (handleCustom J j w)"
      by (simp add: listens_def)
    then show ?thesis using True Cons.IH[of "handleCustom J j w"] by simp
  next
    case False
    then have "notify J name (j # js) w = notify J name js w" by (auto simp: listens_def)
    then show ?thesis using False Cons.IH[of w] by simp
  qed
qed

lemma dispatchEvent_listeners:
  "dispatchEvent J name w = fold (handleCustom J) (listeners w name) (emit (Dispatch name) w)"
proof -
  have "listens (emit (Dispatch name) w) name = listens w name"
    by (rule ext) (simp add: listens_def)
  then show ?thesis by (simp add: dispatchEvent_def notify_listeners listeners_def)
qed

lemma listeners_proj [simp]:
  "listeners (emit e w) name = listeners w name"
  "listeners (set_storage t st w) name = listeners w name"
  by (simp_all add: listeners_def listens_def[abs_def])

lemma listeners_update:
  assumes "i < length (hooks w)" and "params h' = params (hooks w ! i)"
    and "subscribed h' = subscribed (hooks w ! i)"
  shows "listeners (w\<lparr>hooks := (hooks w)[i := h']\<rparr>) name = listeners w name"
proof -
  have "listens (w\<lparr>hooks := (hooks w)[i := h']\<rparr>) name j = listens w name j" for j
    using assms by (cases "j = i") (simp_all add: listens_def)
  then show ?thesis by (simp add: listeners_def cong: filter_cong)
qed

subsection \<open>Who renders and runs effects\<close>

lemma resting_butD:
  "resting_but i w \<Longrightarrow> j < length (hooks w) \<Longrightarrow> j \<noteq> i
   \<Longrightarrow> queued (hooks w ! j) = None \<and> \<not> effectPending (hooks w ! j)"
  by (auto simp: resting_but_def at_rest_def list_all_iff)

lemma resting_but_proj [simp]:
  "resting_but i (emit e w) = resting_but i w"
  "resting_but i (set_storage t st w) = resting_but i w"
  by (simp_all add: resting_but_def)

lemma resting_but_update:
  "resting_but i w \<Longrightarrow> resting_but i (w\<lparr>hooks := (hooks w)[i := h']\<rparr>)"
proof -
  assume r: "resting_but i w"
  have "j = i \<or> at_rest ((hooks w)[i := h'] ! j)" if "j < length (hooks w)" for j
    using r that by (cases "j = i") (auto simp: resting_but_def list_all_iff)
  then show ?thesis by (simp add: resting_but_def list_all_iff)
qed

lemma upt_split: "i < n \<Longrightarrow> [0..<n] = [0..<i] @ i # [Suc i..<n]"
  using upt_add_eq_append[of 0 i "n - i"] by (simp add: upt_conv_Cons)

lemma render_hook_idle: "queued h = None \<Longrightarrow> render_hook h = h"
  by (simp add: render_hook_def)

lemma render_at:
  assumes "i < length (hooks w)" and "resting_but i w"
  shows "render w = w\<lparr>hooks := (hooks w)[i := render_hook (hooks w ! i)]\<rparr>"
proof -
  have "map render_hook (hooks w) = (hooks w)[i := render_hook (hooks w ! i)]"
  proof (rule nth_equalityI)
    show "length (map render_hook (hooks w)) = length ((hooks w)[i := render_hook (hooks w ! i)])"
      by simp
  next
    fix j assume "j < length (map render_hook (hooks w))"
    then have j: "j < length (hooks w)" by simp
    show "map render_hook (hooks w) ! j = (hooks w)[i := render_hook (hooks w ! i)] ! j"
      using j resting_butD[OF assms(2) j] by (cases "j = i") (simp_all add: render_hook_idle)
  qed
  then show ?thesis by (simp add: render_def)
qed

lemma commit_append:
  "commit J (xs @ ys) w = (case commit J xs w of Inl e \<Rightarrow> Inl e | Inr w' \<Rightarrow> commit J ys w')"
  by (induction xs arbitrary: w) (simp_all split: sum.split)

lemma commit_skip: "\<forall>j \<in> set js. \<not> effectPending (hooks w ! j) \<Longrightarrow> commit J js w = Inr w"
  by (induction js) simp_all

lemma notify_pending [simp]:
  "effectPending (hooks (notify J name js w) ! j) = effectPending (hooks w ! j)"
  by (induction js arbitrary: w) simp_all

lemma dispatchEvent_pending [simp]:
  "effectPending (hooks (dispatchEvent J name w) ! j) = effectPending (hooks w ! j)"
  by (simp add: dispatchEvent_def)

lemma set_previous_pending:
  "effectPending (hooks (set_previous i v w) ! j) = effectPending (hooks w ! j)"
  by (cases "j = i"; cases "i < length (hooks w)"; simp add: list_update_beyond)

lemma persistEffect_pending:
  assumes "persistEffect J i w = Inr w'"
  shows "effectPending (hooks w' ! j) = effectPending (hooks w ! j)"
proof (cases "hasValueChanged J (hooks w ! i)")
  case (Inl e)
  with assms show ?thesis by (simp add: persistEffect_def)
next
  case (Inr b)
  show ?thesis
  proof (cases b)
    case False
    with Inr assms show ?thesis by (simp add: persistEffect_def)
  next
    case True
    show ?thesis
    proof (cases "writeStep J (params (hooks w ! i)) (storedValue (hooks w ! i)) w")
      case (Inl e)
      with True Inr assms show ?thesis by (auto simp: persistEffect_def Let_def)
    next
      case ws: (Inr w1)
      have h: "hooks w1 = hooks w" using ws by (rule writeStep_proj)
      have "w' = set_previous i (storedValue (hooks w ! i))
                   (dispatchEvent J (changed_event (key (params (hooks w ! i)))) w1)"
        using persist_written[OF _ ws] True Inr assms by simp
      then show ?thesis using h by (simp add: set_previous_pending del: set_previous_proj)
    qed
  qed
qed

lemma pass_at:
  assumes i: "i < length (hooks w)" and rest: "resting_but i w"
  shows "pass J w =
     (if effectPending (render_hook (hooks w ! i))
      then persistEffect J i
             (w\<lparr>hooks := (hooks w)[i := (render_hook (hooks w ! i))\<lparr>subscribed := True, effectPending := False\<rparr>]\<rparr>)
      else Inr (w\<lparr>hooks := (hooks w)[i := render_hook (hooks w ! i)]\<rparr>))"
proof -
  let ?h = "render_hook (hooks w ! i)"
  let ?w1 = "w\<lparr>hooks := (hooks w)[i := ?h]\<rparr>"
  let ?n = "length (hooks w)"
  have p: "pass J w = commit J [0..<?n] ?w1"
    using render_at[OF i rest] by (simp add: pass_def)
  have before: "commit J [0..<i] ?w1 = Inr ?w1"
    using resting_butD[OF rest] i by (intro commit_skip) auto
  have split: "commit J [0..<?n] ?w1 = commit J (i # [Suc i..<?n]) ?w1"
    using upt_split[OF i] commit_append[of J "[0..<i]" "i # [Suc i..<?n]" ?w1] before by simp
  show ?thesis
  proof (cases "effectPending ?h")
    case False
    have "commit J [Suc i..<?n] ?w1 = Inr ?w1"
      using resting_butD[OF rest] by (intro commit_skip) auto
    then show ?thesis using False p split i by simp
  next
    case True
    let ?w2 = "w\<lparr>hooks := (hooks w)[i := ?h\<lparr>subscribed := True, effectPending := False\<rparr>]\<rparr>"
    have r: "runEffects J i ?w1 = persistEffect J i ?w2" using i by (simp add: runEffects_def)
    have "commit J (i # [Suc i..<?n]) ?w1 = persistEffect J i ?w2"
    proof (cases "persistEffect J i ?w2")
      case (Inl e)
      then show ?thesis using True r i by simp
    next
      case (Inr w')
      have "commit J [Suc i..<?n] w' = Inr w'"
      proof (intro commit_skip ballI)
        fix j assume "j \<in> set [Suc i..<?n]"
        then have j: "j < ?n" "j \<noteq> i" by auto
        have "effectPending (hooks w' ! j) = effectPending (hooks ?w2 ! j)"
          using Inr by (rule persistEffect_pending)
        then show "\<not> effectPending (hooks w' ! j)" using j resting_butD[OF rest j] by simp
      qed
      then show ?thesis using True r i Inr by simp
    qed
    then show ?thesis using True p split by simp
  qed
qed

lemma quiescent_at:
  assumes "i < length (hooks w)" and "resting_but i w"
  shows "quiescent w = at_rest (hooks w ! i)"
proof -
  have "quiescent w = (\<forall>j < length (hooks w). at_rest (hooks w ! j))"
    by (simp add: quiescent_def at_rest_def list_all_length)
  also have "\<dots> = at_rest (hooks w ! i)"
    using assms(1) resting_butD[OF assms(2)] by (auto simp: at_rest_def)
  finally show ?thesis .
qed

subsection \<open>Rounds around one instance\<close>

lemma idle_proj [simp]:
  "params (idle p m c) = p" "storedValue (idle p m c) = m" "previousValueRef (idle p m c) = c"
  "queued (idle p m c) = None" "subscribed (idle p m c)" "\<not> effectPending (idle p m c)"
  by (simp_all add: idle_def)

lemma idle_effects [simp]:
  "idle p m c\<lparr>subscribed := True, effectPending := False\<rparr> = idle p m c"
  by (simp add: idle_def)

lemma render_queued:
  "render_hook (idle p m c\<lparr>queued := Some v\<rparr>)
     = (if Object_is v m then idle p m c else (idle p v c)\<lparr>effectPending := True\<rparr>)"
  by (simp add: render_hook_def idle_def)

lemma at_rest_idle [simp]: "at_rest (idle p m c)"
  by (simp add: at_rest_def)

text \<open>React skips the update.\<close>

lemma at_skipped:
  assumes i: "i < length (hooks w)" and rest: "resting_but i w"
    and h: "hooks w ! i = idle p m c\<lparr>queued := Some v\<rparr>" and same: "Object_is v m"
  shows "settle (Suc n) J w = Done (w\<lparr>hooks := (hooks w)[i := idle p m c]\<rparr>)"
proof -
  let ?w1 = "w\<lparr>hooks := (hooks w)[i := idle p m c]\<rparr>"
  have "\<not> quiescent w" using quiescent_at[OF i rest] h by (simp add: at_rest_def)
  moreover have "pass J w = Inr ?w1" using pass_at[OF i rest, of J] h same by (simp add: render_queued)
  moreover have "resting_but i ?w1" using rest by (rule resting_but_update)
  then have "quiescent ?w1" using i quiescent_at[of i ?w1] by simp
  ultimately show ?thesis by (simp add: settle_Suc settle_done)
qed

text \<open>The update is rendered and the comparison of line 138 finds nothing to do.\<close>

lemma at_unchanged:
  assumes i: "i < length (hooks w)" and rest: "resting_but i w"
    and h: "hooks w ! i = idle p m c\<lparr>queued := Some v\<rparr>" and no: "\<not> Object_is v m"
    and a: "stringify J v = Inr a" "stringify J c = Inr a"
  shows "settle (Suc n) J w = Done (w\<lparr>hooks := (hooks w)[i := idle p v c]\<rparr>)"
proof -
  let ?w1 = "w\<lparr>hooks := (hooks w)[i := idle p v c]\<rparr>"
  have nq: "\<not> quiescent w" using quiescent_at[OF i rest] h by (simp add: at_rest_def)
  have "hasValueChanged J (hooks ?w1 ! i) = Inr False"
    using a i by (simp add: hasValueChanged_def)
  then have "persistEffect J i ?w1 = Inr ?w1" by (rule persist_noop)
  then have "pass J w = Inr ?w1"
    using pass_at[OF i rest, of J] h no by (simp add: render_queued)
  moreover have "resting_but i ?w1" using rest by (rule resting_but_update)
  then have "quiescent ?w1" using i quiescent_at[of i ?w1] by simp
  ultimately show ?thesis using nq by (simp add: settle_Suc settle_done)
qed

text \<open>Either way, a write of the committed serialized form changes nothing outside.\<close>

lemma at_unchanged_or_skipped:
  assumes i: "i < length (hooks w)" and rest: "resting_but i w"
    and h: "hooks w ! i = idle p m c\<lparr>queued := Some v\<rparr>"
    and a: "stringify J v = Inr a" "stringify J c = Inr a"
  shows "\<exists>w'. settle (Suc n) J w = Done w' \<and> trace w' = trace w
           \<and> (\<forall>t. storage_of w' t = storage_of w t)"
proof (cases "Object_is v m")
  case True
  then show ?thesis using at_skipped[OF i rest h True, of n J] by simp
next
  case False
  then show ?thesis using at_unchanged[OF i rest h False a, of n] by simp
qed

text \<open>The update is rendered, the backend refuses the write.\<close>

lemma at_refused:
  assumes i: "i < length (hooks w)" and rest: "resting_but i w"
    and h: "hooks w ! i = idle p m c\<lparr>queued := Some v\<rparr>" and no: "\<not> Object_is v m"
    and nn: "v \<noteq> Null" "v \<noteq> Undefined"
    and s: "stringify J v = Inr (Some s)" and c: "stringify J c = Inr sc" "Some s \<noteq> sc"
    and st: "setItem (storage_of w (stype p)) (key p) s = Inl e"
  shows "settle (Suc n) J w
     = Done (emit (ConsoleError (''Unable to set '' @ key p @ '' to ''
                                   @ type_name (stype p) @ '' storage''))
              (w\<lparr>hooks := (hooks w)[i := idle p v c]\<rparr>))"
proof -
  let ?w1 = "w\<lparr>hooks := (hooks w)[i := idle p v c]\<rparr>"
  let ?w2 = "emit (ConsoleError (''Unable to set '' @ key p @ '' to ''
                                   @ type_name (stype p) @ '' storage'')) ?w1"
  have nq: "\<not> quiescent w" using quiescent_at[OF i rest] h by (simp add: at_rest_def)
  have "hasValueChanged J (hooks ?w1 ! i) = Inr True"
    using s c i by (simp add: hasValueChanged_def)
  moreover have "writeStep J (params (hooks ?w1 ! i)) (storedValue (hooks ?w1 ! i)) ?w1 = Inl e"
    using nn s st i by (simp add: writeStep_quota)
  ultimately have "persistEffect J i ?w1
      = Inr (emit (ConsoleError (''Unable to set '' @ key (params (hooks ?w1 ! i)) @ '' to ''
                        @ type_name (stype (params (hooks ?w1 ! i))) @ '' storage'')) ?w1)"
    by (rule persist_logged)
  then have "persistEffect J i ?w1 = Inr ?w2" using i by simp
  then have "pass J w = Inr ?w2"
    using pass_at[OF i rest, of J] h no by (simp add: render_queued)
  moreover have "resting_but i ?w2" using resting_but_update[OF rest, of "idle p v c"] by simp
  then have "quiescent ?w2" using i quiescent_at[of i ?w2] by simp
  ultimately show ?thesis using nq by (simp add: settle_Suc settle_done)
qed

lemma persisted_proj [simp]:
  "hooks (persisted i p v v' s st w) = (hooks w)[i := idle p v v\<lparr>queued := Some v'\<rparr>]"
  "trace (persisted i p v v' s st w)
     = trace w @ [SetItem (stype p) (key p) s, Dispatch (changed_event (key p))]"
  "storage_of (persisted i p v v' s st w) t = (if t = stype p then st else storage_of w t)"
  by (simp_all add: persisted_def)

text \<open>
  The update is rendered and persisted; the listener of the instance, the only one for
  its key, re-reads the slot.
\<close>

lemma at_persist_pass:
  assumes i: "i < length (hooks w)" and rest: "resting_but i w"
    and only: "listeners w (changed_event (key p)) = [i]"
    and h: "hooks w ! i = idle p m c\<lparr>queued := Some v\<rparr>" and no: "\<not> Object_is v m"
    and nn: "v \<noteq> Null" "v \<noteq> Undefined"
    and s: "stringify J v = Inr (Some s)" "s \<noteq> []" "parse J s = Inr v'"
    and c: "stringify J c = Inr sc" "Some s \<noteq> sc"
    and st: "setItem (storage_of w (stype p)) (key p) s = Inr st"
  shows "pass J w = Inr (persisted i p v v' s st w)"
proof -
  let ?w1 = "w\<lparr>hooks := (hooks w)[i := idle p v c]\<rparr>"
  let ?w2 = "emit (SetItem (stype p) (key p) s) (set_storage (stype p) st ?w1)"
  let ?w3 = "emit (Dispatch (changed_event (key p))) ?w2"
  have l2: "listeners ?w2 (changed_event (key p)) = [i]"
    using only listeners_update[OF i, of "idle p v c"] h by simp
  have ch: "hasValueChanged J (hooks ?w1 ! i) = Inr True"
    using s(1) c i by (simp add: hasValueChanged_def)
  have 1: "writeStep J (params (hooks ?w1 ! i)) (storedValue (hooks ?w1 ! i)) ?w1 = Inr ?w2"
    using nn s(1) st i by (simp add: writeStep_set)
  have 2: "dispatchEvent J (changed_event (key p)) ?w2 = handleCustom J i ?w3"
    using l2 by (simp add: dispatchEvent_listeners)
  have 3: "handleCustom J i ?w3 = setStoredValue i v' ?w3"
    using s(2,3) getItem_setItem[OF st] i by (intro handleCustom_parsed[where s = s]) simp_all
  have "persistEffect J i ?w1 = Inr (set_previous i v (setStoredValue i v' ?w3))"
    using persist_written[OF ch 1] 2 3 i by simp
  moreover have "set_previous i v (setStoredValue i v' ?w3) = persisted i p v v' s st w"
    using i by (simp add: persisted_def set_previous_def setStoredValue_def emit_def idle_def
        set_storage_def split: storage_type.split)
  ultimately show ?thesis using pass_at[OF i rest, of J] h no by (simp add: render_queued)
qed

lemma at_persisted:
  assumes i: "i < length (hooks w)" and rest: "resting_but i w"
    and only: "listeners w (changed_event (key p)) = [i]"
    and h: "hooks w ! i = idle p m c\<lparr>queued := Some v\<rparr>" and no: "\<not> Object_is v m"
    and nn: "v \<noteq> Null" "v \<noteq> Undefined"
    and s: "stringify J v = Inr (Some s)" "s \<noteq> []" "parse J s = Inr v'"
      "stringify J v' = Inr (Some s)"
    and c: "stringify J c = Inr sc" "Some s \<noteq> sc"
    and st: "setItem (storage_of w (stype p)) (key p) s = Inr st"
  shows "settle (Suc (Suc n)) J w
     = Done ((persisted i p v v' s st w)
              \<lparr>hooks := (hooks w)[i := idle p (if Object_is v' v then v else v') v]\<rparr>)"
proof -
  let ?w2 = "persisted i p v v' s st w"
  have "\<not> quiescent w" using quiescent_at[OF i rest] h by (simp add: at_rest_def)
  moreover have "pass J w = Inr ?w2"
    using i rest only h no nn s(1,2,3) c st by (rule at_persist_pass)
  ultimately have 1: "settle (Suc (Suc n)) J w = settle (Suc n) J ?w2" by (simp add: settle_Suc)
  have i2: "i < length (hooks ?w2)" using i by simp
  have r2: "resting_but i ?w2"
    using resting_but_update[OF rest, of "idle p v v\<lparr>queued := Some v'\<rparr>"]
    by (simp add: resting_but_def)
  have h2: "hooks ?w2 ! i = idle p v v\<lparr>queued := Some v'\<rparr>" using i by simp
  show ?thesis
  proof (cases "Object_is v' v")
    case True
    then show ?thesis using 1 at_skipped[OF i2 r2 h2 True, of n J] by simp
  next
    case False
    then show ?thesis using 1 at_unchanged[OF i2 r2 h2 False s(4) s(1), of n] by simp
  qed
qed

subsection \<open>The accessor\<close>


lemma acc_write_proj [simp]:
  "trace (acc_write i v w) = trace w" "storage_of (acc_write i v w) t = storage_of w t"
  "length (hooks (acc_write i v w)) = length (hooks w)"
  by (simp_all add: acc_write_def)







text \<open>\<open>remove()\<close> of the only listener for its key.\<close>

lemma removeStoredValue_at:
  assumes i: "i < length (hooks w)" and only: "listeners w (changed_event (key p)) = [i]"
    and h: "hooks w ! i = idle p m c"
  shows "removeStoredValue J i w =
     setStoredValue i (dflt p)
       (emit (Dispatch (changed_event (key p)))
          (emit (RemoveItem (stype p) (key p))
             (set_storage (stype p) (removeItem (storage_of w (stype p)) (key p)) w)))"
proof -
  let ?w1 = "emit (RemoveItem (stype p) (key p))
             (set_storage (stype p) (removeItem (storage_of w (stype p)) (key p)) w)"
  let ?w2 = "emit (Dispatch (changed_event (key p))) ?w1"
  have 1: "dispatchEvent J (changed_event (key p)) ?w1 = handleCustom J i ?w2"
    using only by (simp add: dispatchEvent_listeners)
  have 2: "handleCustom J i ?w2 = setStoredValue i (dflt p) ?w2"
    using h handleCustom_absent[of ?w2 i J] by simp
  show ?thesis using h 1 2 by (simp add: removeStoredValue_def Let_def)
qed


text \<open>
  The update to \<open>null\<close> or \<open>undefined\<close> is rendered: the slot is removed, and the
  listener queues the default.
\<close>

lemma at_removed_pass:
  assumes i: "i < length (hooks w)" and rest: "resting_but i w"
    and only: "listeners w (changed_event (key p)) = [i]"
    and h: "hooks w ! i = idle p m c\<lparr>queued := Some v\<rparr>" and no: "\<not> Object_is v m"
    and v: "v = Null \<or> v = Undefined"
    and sv: "stringify J v = Inr sv" and sc: "stringify J c = Inr sc" and ch: "sv \<noteq> sc"
  shows "pass J w =
     Inr (set_previous i v
           (setStoredValue i (dflt p)
             (emit (Dispatch (changed_event (key p)))
               (emit (RemoveItem (stype p) (key p))
                 (set_storage (stype p) (removeItem (storage_of w (stype p)) (key p))
                    (w\<lparr>hooks := (hooks w)[i := idle p v c]\<rparr>))))))"
proof -
  let ?wr = "w\<lparr>hooks := (hooks w)[i := idle p v c]\<rparr>"
  let ?w1 = "emit (RemoveItem (stype p) (key p))
             (set_storage (stype p) (removeItem (storage_of w (stype p)) (key p)) ?wr)"
  let ?w2 = "emit (Dispatch (changed_event (key p))) ?w1"
  have l1: "listeners ?w1 (changed_event (key p)) = [i]"
    using only listeners_update[OF i, of "idle p v c"] h by simp
  have chg: "hasValueChanged J (hooks ?wr ! i) = Inr True"
    using sv sc ch i by (simp add: hasValueChanged_def)
  have ws: "writeStep J (params (hooks ?wr ! i)) (storedValue (hooks ?wr ! i)) ?wr = Inr ?w1"
    using v i writeStep_remove[of v J p ?wr] by simp
  have d: "dispatchEvent J (changed_event (key p)) ?w1 = handleCustom J i ?w2"
    using l1 by (simp add: dispatchEvent_listeners)
  have hc: "handleCustom J i ?w2 = setStoredValue i (dflt p) ?w2"
    using i handleCustom_absent[of ?w2 i J] by simp
  have "persistEffect J i ?wr = Inr (set_previous i v (setStoredValue i (dflt p) ?w2))"
    using persist_written[OF chg ws] d hc i by simp
  then show ?thesis using no pass_at[OF i rest, of J] h by (simp add: render_queued)
qed

text \<open>Two listeners for one key.\<close>

lemma changed_event_inj [simp]: "(changed_event k = changed_event k') = (k = k')"
  by (simp add: changed_event_def)


text \<open>The instance that \<open>mount\<close> adds.\<close>

lemma mount_hooks:
  "hooks (mount J p w) =
     hooks w @ [\<lparr>params = p, storedValue = fst (getStoredValue J p w), previousValueRef = Null,
                 queued = None, subscribed = False, effectPending = True\<rparr>]"
  "trace (mount J p w) = trace (snd (getStoredValue J p w))"
  "storage_of (mount J p w) t = storage_of w t"
  by (simp_all add: mount_def split: prod.split)
    (metis getStoredValue_proj(1) snd_conv, metis getStoredValue_proj(2) snd_conv)

lemma fresh_read: "acc_read (length (hooks w)) (mount J p w) = fst (getStoredValue J p w)"
  by (simp add: acc_read_def mount_hooks)

text \<open>
  What a fresh accessor starts with is decided by the slot: its own default when the slot
  is absent, the parsed text otherwise.
\<close>

lemma fresh_of_slot:
  assumes "getItem (storage_of w' (stype p)) (key p) = None
     \<or> (\<exists>s d0. getItem (storage_of w' (stype p)) (key p) = Some s \<and> s \<noteq> []
            \<and> parse J s = Inr d0 \<and> stringify J d0 = stringify J (dflt p))"
  shows "stringify J (acc_read (length (hooks w')) (mount J p w')) = stringify J (dflt p)
       \<and> (acc_read (length (hooks w')) (mount J (p\<lparr>dflt := d'\<rparr>) w') = d'
          \<or> stringify J (acc_read (length (hooks w')) (mount J (p\<lparr>dflt := d'\<rparr>) w'))
              = stringify J (dflt p))"
proof (cases "getItem (storage_of w' (stype p)) (key p)")
  case None
  then have "getStoredValue J p w' = (dflt p, w')"
    "getStoredValue J (p\<lparr>dflt := d'\<rparr>) w' = (d', w')"
    by (simp_all add: getStoredValue_absent)
  then show ?thesis by (simp add: fresh_read)
next
  case (Some s)
  with assms obtain d0 where d0: "s \<noteq> []" "parse J s = Inr d0"
    "stringify J d0 = stringify J (dflt p)" by auto
  have "getStoredValue J p w' = (d0, w')" "getStoredValue J (p\<lparr>dflt := d'\<rparr>) w' = (d0, w')"
    using Some d0(1,2) by (simp_all add: getStoredValue_parsed)
  then show ?thesis using d0(3) by (simp add: fresh_read)
qed

subsection \<open>The counter example is reachable\<close>

lemma mounted_reachable:
  "settle 3 scalar_JSON (mount scalar_JSON counter_params (empty_world 100)) = Done w_mounted"
  by code_simp

lemma five_reachable: "settle 3 scalar_JSON (acc_write 0 (Num 5) w_mounted) = Done w_five"
  by code_simp

lemma pair_reachable:
  "settle 3 scalar_JSON (mount scalar_JSON counter_params w_five) = Done w_pair"
  by code_simp

lemma with_note_reachable:
  "settle 3 scalar_JSON (mount scalar_JSON null_params w_mounted) = Done w_with_note"
  by code_simp

section \<open>Lemmas about the installer\<close>






lemma sibling_not_prefix: "n \<noteq> m \<Longrightarrow> \<not> prefix (t @ [n]) (t @ m # p)"
  by simp
















section \<open>The properties of the accessor\<close>

text \<open>
  The theorems about one accessor are about instance \<open>i\<close> of any context in which it is
  mounted and at rest (\<open>hooks w ! i = idle p m c\<close>, with mirror \<open>m\<close> and committed value
  \<open>c\<close>), every other instance is at rest too (\<open>resting_but i w\<close>), and instance \<open>i\<close> is the
  only one that listens to the notification of its key (\<open>listeners w \<dots> = [i]\<close>).
  \<open>settle n\<close> renders and runs effects until the context is at rest again; \<open>Done\<close> says
  that \<open>n\<close> rounds were enough.
\<close>

subsection \<open>C1: write, then read\<close>




text \<open>
  In the render that follows the write, before any effect has run, the mirror is the
  written value, for every value, \<open>null\<close> included; it is the effects of that render that
  reset it for \<open>null\<close>.
\<close>

lemma mirror_in_render_after_write:
  assumes "i < length (hooks w)"
  shows "acc_read i (render (acc_write i v w)) = v"
proof (cases "Object_is v (storedValue (hooks w ! i))")
  case True
  from Object_is_eq[OF True] True assms show ?thesis
    by (simp add: acc_read_def acc_write_def setStoredValue_def render_def render_hook_def)
next
  case False
  with assms show ?thesis
    by (simp add: acc_read_def acc_write_def setStoredValue_def render_def render_hook_def)
qed

subsection \<open>C2: two instances on one key\<close>




subsection \<open>C3: the second write of the same value\<close>





text \<open>
  With a second instance on the same key the first call is not alone: the second
  instance is notified, renders the value, and its own persistence effect stores the
  text and notifies once more. Of the two counters that show 5, the first is set to 7.
\<close>

lemma write_with_sibling_persists_twice:
  "(case settle 3 scalar_JSON (acc_write 0 (Num 7) w_pair) of
      Done w' \<Rightarrow>
        backend_writes (drop (length (trace w_pair)) (trace w')) = 2
        \<and> notifications (drop (length (trace w_pair)) (trace w')) = 2
        \<and> acc_read 0 w' = Num 7 \<and> acc_read 1 w' = Num 7
    | _ \<Rightarrow> False)"
  by code_simp

subsection \<open>C4: the notification and the ref after the write step\<close>

text \<open>
  C4, as the specification states it, also when the write step raises: it fails there.
  The counter is mounted on a storage whose quota is exhausted. The first run of the
  effect finds a change, \<open>setItem\<close> throws, and the \<open>catch\<close> logs the error: no notification
  is dispatched, and the ref still holds \<open>null\<close>, not the mirror 0.
\<close>

theorem failed_write_emits_no_signal:
  "hasValueChanged scalar_JSON (hooks (mount scalar_JSON counter_params (empty_world 0)) ! 0)
     = Inr True
   \<and> writeStep scalar_JSON counter_params (Num 0) (mount scalar_JSON counter_params (empty_world 0))
     = Inl QuotaExceededError
   \<and> (case persistEffect scalar_JSON 0 (mount scalar_JSON counter_params (empty_world 0)) of
        Inr w' \<Rightarrow> trace w' = [ConsoleError ''Unable to set counter to local storage'']
                 \<and> Dispatch ''counter-changed'' \<notin> set (trace w')
                 \<and> storedValue (hooks w' ! 0) = Num 0
                 \<and> previousValueRef (hooks w' ! 0) = Null
      | Inl e \<Rightarrow> False)"
  by code_simp

text \<open>
  C4, amended: on a mirror update whose serialized form differs from the committed one,
  when the backend write step succeeds (it appends its one backend operation to the
  trace), the effect then dispatches the same-context notification, as the next event of
  the trace, and records the mirror in the ref; the listeners it reaches add neither a
  backend operation nor a notification, and leave the storages as the write step left
  them. When the write step raises, the effect only logs the error (the context is the
  one before, with the log line added).
\<close>

theorem persistence_signal_follows_successful_write:
  assumes i: "i < length (hooks w)" and ch: "hasValueChanged J (hooks w ! i) = Inr True"
  shows "case writeStep J (params (hooks w ! i)) (storedValue (hooks w ! i)) w of
           Inr w1 \<Rightarrow>
             (\<exists>w' e tr. persistEffect J i w = Inr w'
                \<and> trace w1 = trace w @ [e] \<and> is_backend_write e
                \<and> trace w' = trace w1 @ Dispatch (changed_event (key (params (hooks w ! i)))) # tr
                \<and> backend_writes tr = 0 \<and> notifications tr = 0
                \<and> (\<forall>t. storage_of w' t = storage_of w1 t)
                \<and> previousValueRef (hooks w' ! i) = storedValue (hooks w ! i))
         | Inl e \<Rightarrow>
             persistEffect J i w
               = Inr (emit (ConsoleError (''Unable to set '' @ key (params (hooks w ! i)) @ '' to ''
                        @ type_name (stype (params (hooks w ! i))) @ '' storage'')) w)"
proof (cases "writeStep J (params (hooks w ! i)) (storedValue (hooks w ! i)) w")
  case (Inl e)
  then show ?thesis using persist_logged[OF ch Inl] by simp
next
  case (Inr w1)
  let ?n = "changed_event (key (params (hooks w ! i)))"
  let ?w' = "set_previous i (storedValue (hooks w ! i)) (dispatchEvent J ?n w1)"
  have p: "persistEffect J i w = Inr ?w'" using persist_written[OF ch Inr] .
  obtain e where e: "trace w1 = trace w @ [e]" "is_backend_write e"
    using writeStep_event[OF Inr] by blast
  obtain tr where tr: "trace (dispatchEvent J ?n w1) = trace w1 @ Dispatch ?n # tr"
    "backend_writes tr = 0" "notifications tr = 0"
    using dispatchEvent_logs by blast
  have t: "trace ?w' = trace w1 @ Dispatch ?n # tr" using tr(1) by simp
  have s: "\<forall>t. storage_of ?w' t = storage_of w1 t" by simp
  have "i < length (hooks (dispatchEvent J ?n w1))" using i writeStep_proj[OF Inr] by simp
  then have r: "previousValueRef (hooks ?w' ! i) = storedValue (hooks w ! i)" by simp
  have "\<exists>w' e tr. persistEffect J i w = Inr w'
                \<and> trace w1 = trace w @ [e] \<and> is_backend_write e
                \<and> trace w' = trace w1 @ Dispatch ?n # tr
                \<and> backend_writes tr = 0 \<and> notifications tr = 0
                \<and> (\<forall>t. storage_of w' t = storage_of w1 t)
                \<and> previousValueRef (hooks w' ! i) = storedValue (hooks w ! i)"
    using p e t tr(2,3) s r by blast
  then show ?thesis using Inr by simp
qed

text \<open>The first effect of the counter, on an empty storage with room.\<close>

theorem persistence_signal_follows_successful_write_witness:
  "0 < length (hooks (mount scalar_JSON counter_params (empty_world 100)))
   \<and> hasValueChanged scalar_JSON (hooks (mount scalar_JSON counter_params (empty_world 100)) ! 0)
       = Inr True
   \<and> (\<exists>w' tr. persistEffect scalar_JSON 0 (mount scalar_JSON counter_params (empty_world 100)) = Inr w'
          \<and> trace w' = SetItem Local ''counter'' ''0'' # Dispatch ''counter-changed'' # tr
          \<and> backend_writes tr = 0 \<and> notifications tr = 0
          \<and> previousValueRef (hooks w' ! 0) = Num 0)"
proof -
  let ?W = "mount scalar_JSON counter_params (empty_world 100)"
  have 1: "0 < length (hooks ?W)" by code_simp
  have 2: "hasValueChanged scalar_JSON (hooks ?W ! 0) = Inr True" by code_simp
  have 3: "writeStep scalar_JSON (params (hooks ?W ! 0)) (storedValue (hooks ?W ! 0)) ?W
      = Inr (emit (SetItem Local ''counter'' ''0'')
               (set_storage Local \<lparr>slots = [(''counter'', ''0'')], quota = 100\<rparr> ?W))"
    by code_simp
  have 4: "changed_event (key (params (hooks ?W ! 0))) = ''counter-changed''" by code_simp
  have 5: "storedValue (hooks ?W ! 0) = Num 0" by code_simp
  have 6: "trace ?W = []" by code_simp
  from persistence_signal_follows_successful_write[OF 1 2, unfolded 3 sum.case]
  show ?thesis using 1 2 by (simp add: 4 5 6) blast
qed

subsection \<open>C5: errors that reach the caller\<close>

text \<open>
  C5 does not hold of the code. The two calls of \<open>JSON.stringify\<close> in line 138 stand before
  the \<open>try\<close> of lines 141-149, which holds the same call again (line 143). A default value
  that \<open>JSON.stringify\<close> refuses, such as a \<open>BigInt\<close>, is read without an error (the slot is
  absent), and the first run of the persistence effect throws the \<open>TypeError\<close> to React
  instead of logging it.
\<close>

theorem unserializable_default_throws:
  "acc_read 0 (mount scalar_JSON \<lparr>key = ''k'', dflt = BigInt 10, stype = Local\<rparr> (empty_world 100))
     = BigInt 10
   \<and> settle 3 scalar_JSON
       (mount scalar_JSON \<lparr>key = ''k'', dflt = BigInt 10, stype = Local\<rparr> (empty_world 100))
     = Thrown TypeError"
  by code_simp

subsection \<open>C6: the first run of the persistence effect\<close>

text \<open>
  C6, as the specification states it, for every initial mirror: it fails for \<open>null\<close>. The
  ref starts as \<open>null\<close> (line 103), whose text is \<open>null\<close>; an accessor whose default is
  \<open>null\<close>, mounted on an empty storage, has the mirror \<open>null\<close>, the comparison of line 138
  finds no change, and the first run does nothing.
\<close>

theorem null_mirror_first_run_suppressed:
  "acc_read 0 (mount scalar_JSON null_params (empty_world 100)) = Null
   \<and> hasValueChanged scalar_JSON (hooks (mount scalar_JSON null_params (empty_world 100)) ! 0)
       = Inr False
   \<and> (case runEffects scalar_JSON 0 (mount scalar_JSON null_params (empty_world 100)) of
        Inr w' \<Rightarrow> trace w' = []
      | Inl e \<Rightarrow> False)"
  by code_simp

text \<open>
  C6, amended: the first run of the persistence effect after the mount is suppressed
  exactly when the serialized form of the initial mirror is that of \<open>null\<close>. For every
  other initial mirror, from the slot or from the default, the comparison finds a change
  and the run leaves its mark on the trace (the backend write and the notification, or
  the logged error).
\<close>

theorem first_run_suppressed_only_for_null_text:
  assumes sm: "stringify J (acc_read (length (hooks w)) (mount J p w)) = Inr sm"
    and sn: "stringify J Null = Inr sn"
  shows "hasValueChanged J (hooks (mount J p w) ! length (hooks w)) = Inr (sm \<noteq> sn)
       \<and> (\<exists>w'. runEffects J (length (hooks w)) (mount J p w) = Inr w'
             \<and> (trace w' = trace (mount J p w)) = (sm = sn))"
proof -
  let ?n = "length (hooks w)" and ?W = "mount J p w"
  let ?h = "\<lparr>params = p, storedValue = fst (getStoredValue J p w), previousValueRef = Null,
                 queued = None, subscribed = False, effectPending = True\<rparr>"
  have hn: "hooks ?W ! ?n = ?h" by (simp add: mount_hooks)
  have sm': "stringify J (fst (getStoredValue J p w)) = Inr sm"
    using sm hn by (simp add: acc_read_def)
  have ch: "hasValueChanged J (hooks ?W ! ?n) = Inr (sm \<noteq> sn)"
    using sm' sn hn by (simp add: hasValueChanged_def)
  let ?h' = "?h\<lparr>subscribed := True, effectPending := False\<rparr>"
  let ?W1 = "?W\<lparr>hooks := (hooks ?W)[?n := ?h']\<rparr>"
  have r: "runEffects J ?n ?W = persistEffect J ?n ?W1"
    using hn by (simp add: runEffects_def)
  have h1: "hooks ?W1 ! ?n = ?h'" by (simp add: mount_hooks)
  have ch1: "hasValueChanged J (hooks ?W1 ! ?n) = Inr (sm \<noteq> sn)"
    using sm' sn h1 by (simp add: hasValueChanged_def)
  have "\<exists>w'. persistEffect J ?n ?W1 = Inr w' \<and> (trace w' = trace ?W) = (sm = sn)"
  proof (cases "sm = sn")
    case True
    then have "persistEffect J ?n ?W1 = Inr ?W1" using ch1 by (simp add: persist_noop)
    then show ?thesis using True by simp
  next
    case False
    then have c: "hasValueChanged J (hooks ?W1 ! ?n) = Inr True" using ch1 by simp
    show ?thesis
    proof (cases "writeStep J (params (hooks ?W1 ! ?n)) (storedValue (hooks ?W1 ! ?n)) ?W1")
      case (Inl e)
      then show ?thesis using persist_logged[OF c Inl] False by simp
    next
      case (Inr w1)
      obtain e where e: "trace w1 = trace ?W1 @ [e]" using writeStep_trace[OF Inr] by blast
      obtain tr where tr: "trace (dispatchEvent J (changed_event (key (params (hooks ?W1 ! ?n)))) w1)
          = trace w1 @ Dispatch (changed_event (key (params (hooks ?W1 ! ?n)))) # tr"
        using dispatchEvent_trace by blast
      show ?thesis using persist_written[OF c Inr] False e tr by simp
    qed
  qed
  then show ?thesis using ch r by simp
qed

text \<open>The counter, whose initial mirror 0 has the text \<open>0\<close>.\<close>

theorem first_run_suppressed_only_for_null_text_witness:
  "stringify scalar_JSON (acc_read (length (hooks (empty_world 100)))
       (mount scalar_JSON counter_params (empty_world 100))) = Inr (Some ''0'')
   \<and> stringify scalar_JSON Null = Inr (Some ''null'')
   \<and> hasValueChanged scalar_JSON
       (hooks (mount scalar_JSON counter_params (empty_world 100)) ! length (hooks (empty_world 100)))
       = Inr True
   \<and> (\<exists>w'. runEffects scalar_JSON (length (hooks (empty_world 100)))
              (mount scalar_JSON counter_params (empty_world 100)) = Inr w'
          \<and> trace w' \<noteq> trace (mount scalar_JSON counter_params (empty_world 100)))"
proof -
  have 1: "stringify scalar_JSON (acc_read (length (hooks (empty_world 100)))
       (mount scalar_JSON counter_params (empty_world 100))) = Inr (Some ''0'')" by code_simp
  have 2: "stringify scalar_JSON Null = Inr (Some ''null'')" by code_simp
  from first_run_suppressed_only_for_null_text[OF 1 2]
  show ?thesis using 1 2 by simp
qed

subsection \<open>C7: writing \<open>null\<close> or \<open>undefined\<close>\<close>




subsection \<open>C8: \<open>remove()\<close>, then a fresh accessor\<close>

text \<open>
  C8, as the specification states it, for every default and an accessor instantiated at
  any time after \<open>remove()\<close>: it fails once the effects that \<open>remove()\<close> triggers have
  run. The counter (default 0) shows 5 and \<open>removeCount()\<close> is called; the listener of
  the counter resets its mirror to 0 and its persistence effect stores that default. An
  accessor instantiated then for the same key and backend with the default 1 starts
  with the mirror 0, not with the default it was given.
\<close>

theorem later_accessor_with_other_default:
  "settle 3 scalar_JSON (acc_write 0 (Num 5) w_mounted) = Done w_five
   \<and> (case settle 3 scalar_JSON (acc_remove scalar_JSON 0 w_five) of
        Done w' \<Rightarrow>
          slot w' Local ''counter'' = Some ''0''
          \<and> acc_read (length (hooks w')) (mount scalar_JSON (counter_params\<lparr>dflt := Num 1\<rparr>) w')
              = Num 0
          \<and> acc_read (length (hooks w')) (mount scalar_JSON (counter_params\<lparr>dflt := Num 1\<rparr>) w')
              \<noteq> dflt (counter_params\<lparr>dflt := Num 1\<rparr>)
      | _ \<Rightarrow> False)"
  by code_simp

text \<open>
  In any context, when \<open>remove()\<close> of instance \<open>i\<close> has returned and nothing else has run,
  the slot of its key is absent in its backend, and an accessor instantiated then for
  the same key and backend, with any default \<open>d\<close>, has \<open>d\<close> as its initial mirror.
\<close>

lemma fresh_accessor_right_after_remove:
  "slot (acc_remove J i w) (stype (params (hooks w ! i))) (key (params (hooks w ! i))) = None
   \<and> acc_read (length (hooks w))
       (mount J ((params (hooks w ! i))\<lparr>dflt := d\<rparr>) (acc_remove J i w)) = d"
proof -
  let ?p = "params (hooks w ! i)"
  let ?W = "acc_remove J i w"
  have s: "storage_of ?W (stype ?p) = removeItem (storage_of w (stype ?p)) (key ?p)"
    by (simp add: acc_remove_def removeStoredValue_def Let_def)
  have l: "length (hooks ?W) = length (hooks w)"
    by (simp add: acc_remove_def removeStoredValue_def Let_def)
  have g: "getStoredValue J (?p\<lparr>dflt := d\<rparr>) ?W = (d, ?W)"
    using s by (simp add: getStoredValue_absent)
  have "hooks (mount J (?p\<lparr>dflt := d\<rparr>) ?W) ! length (hooks w)
      = \<lparr>params = ?p\<lparr>dflt := d\<rparr>, storedValue = d, previousValueRef = Null,
         queued = None, subscribed = False, effectPending = True\<rparr>"
    using g l by (simp add: mount_hooks nth_append)
  then show ?thesis using s by (simp add: acc_read_def slot_def)
qed

text \<open>
  C8, amended: \<open>remove()\<close> is called on an instance at rest that is the only one mounted
  on its key, in a context at rest, and whose default is \<open>null\<close>, \<open>undefined\<close> or
  JSON-serializable. An accessor instantiated for the same key and backend before the
  effects that \<open>remove()\<close> triggers have run starts with the default \<open>d'\<close> it is given,
  whatever it is. At any later time (\<open>n\<close> rounds later, for every \<open>n\<close>; the context is at
  rest after two), an accessor given the default of the removing instance starts
  with a mirror that has the serialization of that default, and an accessor given any
  default \<open>d'\<close> starts with \<open>d'\<close> or with a value that has the serialization of the
  removing instance's default: the slot is absent, or that instance has stored its
  default again. What it starts with does not depend on the value that was removed.
\<close>

theorem remove_then_fresh_accessor_reads_default:
  assumes i: "i < length (hooks w)" and rest: "resting_but i w"
    and only: "listeners w (changed_event (key p)) = [i]"
    and h: "hooks w ! i = idle p m c"
    and d: "dflt p = Null \<or> dflt p = Undefined \<or> round_trips J (dflt p)"
    and sd: "stringify J (dflt p) = Inr sd" and c: "stringify J c = Inr sc"
  shows "acc_read (length (hooks w)) (mount J (p\<lparr>dflt := d'\<rparr>) (acc_remove J i w)) = d'
       \<and> (\<exists>w'. rounds n J (acc_remove J i w) = Inr w'
             \<and> stringify J (acc_read (length (hooks w')) (mount J p w')) = stringify J (dflt p)
             \<and> (acc_read (length (hooks w')) (mount J (p\<lparr>dflt := d'\<rparr>) w') = d'
                \<or> stringify J (acc_read (length (hooks w')) (mount J (p\<lparr>dflt := d'\<rparr>) w'))
                    = stringify J (dflt p)))
       \<and> (\<exists>w'. settle 2 J (acc_remove J i w) = Done w'
             \<and> stringify J (acc_read (length (hooks w')) (mount J p w')) = stringify J (dflt p))"
proof -
  let ?t = "stype p" and ?k = "key p" and ?d = "dflt p"
  let ?w0 = "acc_remove J i w"
  let ?Q = "\<lambda>w'. getItem (storage_of w' ?t) ?k = None
     \<or> (\<exists>s d0. getItem (storage_of w' ?t) ?k = Some s \<and> s \<noteq> []
            \<and> parse J s = Inr d0 \<and> stringify J d0 = stringify J ?d)"
  let ?F = "\<lambda>w'. stringify J (acc_read (length (hooks w')) (mount J p w')) = stringify J ?d
       \<and> (acc_read (length (hooks w')) (mount J (p\<lparr>dflt := d'\<rparr>) w') = d'
          \<or> stringify J (acc_read (length (hooks w')) (mount J (p\<lparr>dflt := d'\<rparr>) w'))
              = stringify J ?d)"
  have FQ: "?F w'" if "?Q w'" for w' using that by (rule fresh_of_slot)
  have w0: "?w0 = setStoredValue i ?d
       (emit (Dispatch (changed_event ?k))
          (emit (RemoveItem ?t ?k) (set_storage ?t (removeItem (storage_of w ?t) ?k) w)))"
    using removeStoredValue_at[OF i only h] by (simp add: acc_remove_def)
  have i0: "i < length (hooks ?w0)" using i by (simp add: w0)
  have h0: "hooks ?w0 ! i = idle p m c\<lparr>queued := Some ?d\<rparr>" using i h by (simp add: w0)
  have hk: "hooks ?w0 = (hooks w)[i := (hooks w ! i)\<lparr>queued := Some ?d\<rparr>]" by (simp add: w0)
  have r0: "resting_but i ?w0"
    using resting_but_update[OF rest, of "(hooks w ! i)\<lparr>queued := Some ?d\<rparr>"] hk
    by (simp add: resting_but_def)
  have "listeners ?w0 (changed_event ?k)
      = listeners (w\<lparr>hooks := (hooks w)[i := (hooks w ! i)\<lparr>queued := Some ?d\<rparr>]\<rparr>)
          (changed_event ?k)"
    using hk by (simp add: listeners_def listens_def[abs_def])
  then have l0: "listeners ?w0 (changed_event ?k) = [i]"
    using only listeners_update[OF i, of "(hooks w ! i)\<lparr>queued := Some ?d\<rparr>"] by simp
  have gone: "getItem (storage_of ?w0 ?t) ?k = None" by (simp add: w0)
  have nq: "\<not> quiescent ?w0" using quiescent_at[OF i0 r0] h0 by (simp add: at_rest_def)
  have once: "\<exists>w1 w2. pass J ?w0 = Inr w1 \<and> settle (Suc 0) J w1 = Done w2 \<and> ?Q w1 \<and> ?Q w2"
    if "settle (Suc 0) J ?w0 = Done W" and "getItem (storage_of W ?t) ?k = None" for W
    using settle_one_pass[OF nq that(1)] that(2) by blast
  have key: "\<exists>w1 w2. pass J ?w0 = Inr w1 \<and> settle (Suc 0) J w1 = Done w2 \<and> ?Q w1 \<and> ?Q w2"
  proof (cases "Object_is ?d m")
    case True
    show ?thesis
      using once[of "?w0\<lparr>hooks := (hooks ?w0)[i := idle p m c]\<rparr>"]
        at_skipped[OF i0 r0 h0 True, of 0 J] gone by simp
  next
    case False
    show ?thesis
    proof (cases "sd = sc")
      case True
      show ?thesis
        using once[of "?w0\<lparr>hooks := (hooks ?w0)[i := idle p ?d c]\<rparr>"]
          at_unchanged[OF i0 r0 h0 False sd, of 0] c True gone by simp
    next
      case changed: False
      show ?thesis
      proof (cases "?d = Null \<or> ?d = Undefined")
        case True
        let ?w1 = "set_previous i ?d
           (setStoredValue i ?d
             (emit (Dispatch (changed_event ?k))
               (emit (RemoveItem ?t ?k)
                 (set_storage ?t (removeItem (storage_of ?w0 ?t) ?k)
                    (?w0\<lparr>hooks := (hooks ?w0)[i := idle p ?d c]\<rparr>)))))"
        let ?w2 = "?w1\<lparr>hooks := (hooks ?w1)[i := idle p ?d ?d]\<rparr>"
        have p1: "pass J ?w0 = Inr ?w1"
          using at_removed_pass[OF i0 r0 l0 h0 False True sd c changed] .
        have i1: "i < length (hooks ?w1)" using i0 by simp
        have h1: "hooks ?w1 ! i = idle p ?d ?d\<lparr>queued := Some ?d\<rparr>"
          using i0 by (simp add: idle_def)
        have r1: "resting_but i ?w1"
          using resting_but_update[OF r0, of "idle p ?d ?d\<lparr>queued := Some ?d\<rparr>"] i0
          by (simp add: resting_but_def idle_def)
        have same: "Object_is ?d ?d" using True by auto
        have s1: "settle (Suc 0) J ?w1 = Done ?w2"
          using at_skipped[OF i1 r1 h1 same, of 0 J] by simp
        have "getItem (storage_of ?w1 ?t) ?k = None" "getItem (storage_of ?w2 ?t) ?k = None"
          by simp_all
        then show ?thesis using p1 s1 by blast
      next
        case nn: False
        then have rt: "round_trips J ?d" using d by simp
        from round_tripsD[OF rt] obtain s d0 where s: "stringify J ?d = Inr (Some s)" "s \<noteq> []"
          "parse J s = Inr d0" "stringify J d0 = Inr (Some s)" by blast
        have sds: "sd = Some s" using s(1) sd by simp
        have ne: "Some s \<noteq> sc" using changed sds by simp
        have nn': "?d \<noteq> Null" "?d \<noteq> Undefined" using nn by simp_all
        show ?thesis
        proof (cases "setItem (storage_of ?w0 ?t) ?k s")
          case (Inl e)
          show ?thesis
            using once[of "emit (ConsoleError (''Unable to set '' @ ?k @ '' to ''
                                                 @ type_name ?t @ '' storage''))
                (?w0\<lparr>hooks := (hooks ?w0)[i := idle p ?d c]\<rparr>)"]
              at_refused[OF i0 r0 h0 False nn' s(1) c ne Inl, of 0] gone by simp
        next
          case (Inr st)
          let ?w1 = "persisted i p ?d d0 s st ?w0"
          let ?w2 = "?w1\<lparr>hooks := (hooks ?w0)[i := idle p (if Object_is d0 ?d then ?d else d0) ?d]\<rparr>"
          have p1: "pass J ?w0 = Inr ?w1"
            using i0 r0 l0 h0 False nn' s(1,2,3) c ne Inr by (rule at_persist_pass)
          have "settle (Suc (Suc 0)) J ?w0 = Done ?w2"
            using i0 r0 l0 h0 False nn' s c ne Inr by (rule at_persisted)
          then have s1: "settle (Suc 0) J ?w1 = Done ?w2"
            using settle_Suc[OF nq p1, of "Suc 0"] by simp
          have g: "getItem st ?k = Some s" using getItem_setItem[OF Inr] .
          have sd0: "stringify J d0 = stringify J ?d" using s(1,4) by simp
          have "?Q ?w1" "?Q ?w2" using g s(2,3) sd0 by simp_all
          then show ?thesis using p1 s1 by blast
        qed
      qed
    qed
  qed
  then obtain w1 w2 where p: "pass J ?w0 = Inr w1" and s: "settle (Suc 0) J w1 = Done w2"
    and q: "?Q w1" "?Q w2" by blast
  have g0: "getStoredValue J (p\<lparr>dflt := d'\<rparr>) ?w0 = (d', ?w0)"
    using gone by (simp add: getStoredValue_absent)
  have "acc_read (length (hooks ?w0)) (mount J (p\<lparr>dflt := d'\<rparr>) ?w0) = d'"
    by (simp add: fresh_read g0)
  moreover have "length (hooks ?w0) = length (hooks w)" by (simp add: w0)
  ultimately have A: "acc_read (length (hooks w)) (mount J (p\<lparr>dflt := d'\<rparr>) ?w0) = d'" by simp
  have F0: "?F ?w0" using gone by (intro FQ) simp
  have B: "\<exists>w'. rounds n J ?w0 = Inr w' \<and> ?F w'"
    using F0 nq p FQ[OF q(1)] s FQ[OF q(2)] by (rule rounds_cases[where P = ?F])
  have "settle 2 J ?w0 = Done w2" using settle_Suc[OF nq p, of "Suc 0"] s
    by (simp add: numeral_2_eq_2)
  then have C: "\<exists>w'. settle 2 J ?w0 = Done w'
             \<and> stringify J (acc_read (length (hooks w')) (mount J p w')) = stringify J ?d"
    using FQ[OF q(2)] by blast
  show ?thesis using A B C by (intro conjI)
qed

text \<open>
  \<open>removeCount()\<close> on the counter that shows 5; a fresh accessor with default 1 at once,
  and one with the counter's default one round later and at rest.
\<close>

theorem remove_then_fresh_accessor_reads_default_witness:
  "0 < length (hooks w_five) \<and> resting_but 0 w_five
   \<and> listeners w_five (changed_event (key counter_params)) = [0]
   \<and> hooks w_five ! 0 = idle counter_params (Num 5) (Num 5)
   \<and> round_trips scalar_JSON (dflt counter_params)
   \<and> acc_read (length (hooks w_five))
        (mount scalar_JSON (counter_params\<lparr>dflt := Num 1\<rparr>) (acc_remove scalar_JSON 0 w_five))
       = Num 1
   \<and> (\<exists>w'. rounds 1 scalar_JSON (acc_remove scalar_JSON 0 w_five) = Inr w'
         \<and> stringify scalar_JSON (acc_read (length (hooks w')) (mount scalar_JSON counter_params w'))
             = stringify scalar_JSON (dflt counter_params))
   \<and> (\<exists>w'. settle 2 scalar_JSON (acc_remove scalar_JSON 0 w_five) = Done w'
         \<and> stringify scalar_JSON (acc_read (length (hooks w')) (mount scalar_JSON counter_params w'))
             = stringify scalar_JSON (dflt counter_params))"
proof -
  have 0: "0 < length (hooks w_five)" "resting_but 0 w_five"
    "listeners w_five (changed_event (key counter_params)) = [0]" by code_simp+
  have 1: "hooks w_five ! 0 = idle counter_params (Num 5) (Num 5)" by (simp add: w_five_def)
  have 2: "round_trips scalar_JSON (dflt counter_params)" by code_simp
  have 3: "stringify scalar_JSON (dflt counter_params) = Inr (Some ''0'')" by code_simp
  have 4: "stringify scalar_JSON (Num 5) = Inr (Some ''5'')" by code_simp
  have 5: "dflt counter_params = Null \<or> dflt counter_params = Undefined
             \<or> round_trips scalar_JSON (dflt counter_params)" using 2 by simp
  from remove_then_fresh_accessor_reads_default[OF 0 1 5 3 4, of "Num 1" 1]
  show ?thesis using 0 1 2 by blast
qed

subsection \<open>C10: the slot after \<open>remove()\<close>\<close>




text \<open>
  With a second instance on the same key and another default, the slot does not end
  with the default of the instance that called \<open>remove()\<close>: a counter with default 1
  is mounted beside the counter with default 0, both show 5, and after \<open>removeCount()\<close>
  of the first the slot holds the text of 1 and the first counter shows 1.
\<close>

lemma remove_with_sibling_of_other_default:
  "(case settle 3 scalar_JSON (mount scalar_JSON (counter_params\<lparr>dflt := Num 1\<rparr>) w_five) of
      Done w \<Rightarrow>
        (case settle 4 scalar_JSON (acc_remove scalar_JSON 0 w) of
           Done w' \<Rightarrow> slot w' Local ''counter'' = Some ''1'' \<and> acc_read 0 w' = Num 1
         | _ \<Rightarrow> False)
    | _ \<Rightarrow> False)"
  by code_simp

section \<open>The property of the installer\<close>



end
